theory Spec2Isabelle
  imports Main
begin

section \<open>JavaScript strings and numbers used by \<open>utils/dateUtils\<close>\<close>

text \<open>
  A JavaScript number is modelled as \<open>int option\<close>: \<open>None\<close> is \<open>NaN\<close>. Every number the
  date utilities compute is an integer, and a value too large for a double to hold exactly
  is far outside the range of time values, where the model and the engine both end in
  \<open>NaN\<close> (see \<open>TimeClip\<close>). Strings are byte strings; the white space of ECMAScript is
  modelled on its ASCII part.
\<close>

type_synonym jsnum = "int option"

datatype js_error = RangeError

definition js_add :: "jsnum \<Rightarrow> jsnum \<Rightarrow> jsnum" where
  "js_add a b = (case (a, b) of (Some x, Some y) \<Rightarrow> Some (x + y) | _ \<Rightarrow> None)"

definition js_sub :: "jsnum \<Rightarrow> jsnum \<Rightarrow> jsnum" where
  "js_sub a b = (case (a, b) of (Some x, Some y) \<Rightarrow> Some (x - y) | _ \<Rightarrow> None)"

definition js_le :: "jsnum \<Rightarrow> jsnum \<Rightarrow> bool" where
  "js_le a b = (case (a, b) of (Some x, Some y) \<Rightarrow> x \<le> y | _ \<Rightarrow> False)"

definition isNaN :: "jsnum \<Rightarrow> bool" where
  "isNaN a = (a = None)"

definition is_ws :: "char \<Rightarrow> bool" where
  "is_ws c = (c \<in> set [CHR 0x09, CHR 0x0A, CHR 0x0B, CHR 0x0C, CHR 0x0D, CHR 0x20])"

definition is_digit :: "char \<Rightarrow> bool" where
  "is_digit c = (c \<in> set ''0123456789'')"

definition digit_val :: "char \<Rightarrow> int" where
  "digit_val c = of_char c - 48"

definition digit_char :: "int \<Rightarrow> char" where
  "digit_char d = ''0123456789'' ! nat d"

definition digits_value :: "string \<Rightarrow> int" where
  "digits_value z = foldl (\<lambda>a c. 10 * a + digit_val c) 0 z"

text \<open>\<open>String.prototype.split\<close> with a one-character separator: never the empty array.\<close>

fun js_split :: "char \<Rightarrow> string \<Rightarrow> string list" where
  "js_split sep [] = [[]]"
| "js_split sep (c # cs) =
     (if c = sep then [] # js_split sep cs
      else (case js_split sep cs of [] \<Rightarrow> [[c]] | p # ps \<Rightarrow> (c # p) # ps))"

text \<open>
  \<open>parseInt(s, 10)\<close>: leading white space is skipped, one sign is read, then the longest
  run of decimal digits; no digit gives \<open>NaN\<close>. What follows the digits is ignored.
\<close>

definition parseInt :: "string \<Rightarrow> jsnum" where
  "parseInt s =
     (let t = dropWhile is_ws s;
          sgn = (if t \<noteq> [] \<and> hd t = CHR ''-'' then - 1 else 1);
          u = (if t \<noteq> [] \<and> (hd t = CHR ''+'' \<or> hd t = CHR ''-'') then tl t else t);
          z = takeWhile is_digit u
      in if z = [] then None else Some (sgn * digits_value z))"

text \<open>
  An index past the end of an array reads \<open>undefined\<close>, and both \<open>parseInt(undefined, 10)\<close>
  and arithmetic on \<open>undefined\<close> give \<open>NaN\<close>.
\<close>

definition parseInt_at :: "string list \<Rightarrow> nat \<Rightarrow> jsnum" where
  "parseInt_at parts i = (if i < length parts then parseInt (parts ! i) else None)"

text \<open>
  \<open>Number(s)\<close> on a string: white space is trimmed at both ends, the empty string is 0, a
  signed run of decimal digits is that integer. The other numeric literals of ECMAScript
  (a fraction, an exponent, \<open>Infinity\<close>, the \<open>0x\<close>, \<open>0o\<close> and \<open>0b\<close> forms) are outside this
  model and read as \<open>NaN\<close> here; no date string the application builds contains one, and no
  theorem below depends on what such a field converts to.
\<close>

definition Number :: "string \<Rightarrow> jsnum" where
  "Number s =
     (let t = rev (dropWhile is_ws (rev (dropWhile is_ws s)));
          sgn = (if t \<noteq> [] \<and> hd t = CHR ''-'' then - 1 else 1);
          u = (if t \<noteq> [] \<and> (hd t = CHR ''+'' \<or> hd t = CHR ''-'') then tl t else t)
      in if t = [] then Some 0
         else if u \<noteq> [] \<and> list_all is_digit u then Some (sgn * digits_value u)
         else None)"

definition num_at :: "jsnum list \<Rightarrow> nat \<Rightarrow> jsnum" where
  "num_at xs i = (if i < length xs then xs ! i else None)"


section \<open>The \<open>Date\<close> object (ECMA-262, Date objects)\<close>

text \<open>
  A \<open>Date\<close> holds one time value: milliseconds since 1970-01-01T00:00:00Z, or \<open>NaN\<close>. The
  abstract operations below keep the names they have in ECMA-262.
\<close>

type_synonym jsdate = jsnum

definition msPerDay :: int where
  "msPerDay = 86400000"

definition Day :: "int \<Rightarrow> int" where
  "Day t = t div msPerDay"

definition TimeWithinDay :: "int \<Rightarrow> int" where
  "TimeWithinDay t = t mod msPerDay"

definition DaysInYear :: "int \<Rightarrow> int" where
  "DaysInYear y =
     (if y mod 4 \<noteq> 0 then 365
      else if y mod 100 \<noteq> 0 then 366
      else if y mod 400 \<noteq> 0 then 365
      else 366)"

definition DayFromYear :: "int \<Rightarrow> int" where
  "DayFromYear y =
     365 * (y - 1970) + (y - 1969) div 4 - (y - 1901) div 100 + (y - 1601) div 400"

definition TimeFromYear :: "int \<Rightarrow> int" where
  "TimeFromYear y = msPerDay * DayFromYear y"

text \<open>
  ECMA-262 defines \<open>YearFromTime(t)\<close> as the largest \<open>y\<close> with \<open>TimeFromYear(y) \<le> t\<close>. It is
  computed here from the mean length of a Gregorian year (146097 days in 400 years),
  which is at most one year off, and then adjusted; \<open>YearFromTime_lower\<close>,
  \<open>YearFromTime_upper\<close> and \<open>YearFromTime_unique\<close> show that this is the year of the standard.
\<close>

definition YearFromTime :: "int \<Rightarrow> int" where
  "YearFromTime t =
     (let d = Day t; e = 1970 + (400 * d) div 146097
      in if DayFromYear (e + 1) \<le> d then e + 1
         else if DayFromYear e \<le> d then e
         else e - 1)"

definition InLeapYear :: "int \<Rightarrow> int" where
  "InLeapYear t = (if DaysInYear (YearFromTime t) = 366 then 1 else 0)"

definition DayWithinYear :: "int \<Rightarrow> int" where
  "DayWithinYear t = Day t - DayFromYear (YearFromTime t)"

definition MonthFromTime :: "int \<Rightarrow> int" where
  "MonthFromTime t =
     (let d = DayWithinYear t; l = InLeapYear t
      in if d < 31 then 0
         else if d < 59 + l then 1
         else if d < 90 + l then 2
         else if d < 120 + l then 3
         else if d < 151 + l then 4
         else if d < 181 + l then 5
         else if d < 212 + l then 6
         else if d < 243 + l then 7
         else if d < 273 + l then 8
         else if d < 304 + l then 9
         else if d < 334 + l then 10
         else 11)"

definition DateFromTime :: "int \<Rightarrow> int" where
  "DateFromTime t =
     (let d = DayWithinYear t; l = InLeapYear t; m = MonthFromTime t
      in if m = 0 then d + 1
         else if m = 1 then d - 30
         else if m = 2 then d - 58 - l
         else if m = 3 then d - 89 - l
         else if m = 4 then d - 119 - l
         else if m = 5 then d - 150 - l
         else if m = 6 then d - 180 - l
         else if m = 7 then d - 211 - l
         else if m = 8 then d - 242 - l
         else if m = 9 then d - 272 - l
         else if m = 10 then d - 303 - l
         else d - 333 - l)"

text \<open>
  The day within its year on which month \<open>mn\<close> (0 to 11) begins; \<open>l\<close> is 1 in a leap year.
\<close>

definition monthStart :: "int \<Rightarrow> int \<Rightarrow> int" where
  "monthStart mn l =
     (if mn = 0 then 0
      else if mn = 1 then 31
      else [59, 90, 120, 151, 181, 212, 243, 273, 304, 334] ! nat (mn - 2) + l)"

text \<open>
  \<open>MakeDay(year, month, date)\<close>: the day number of the first day of month \<open>month\<close> of \<open>year\<close>
  (months beyond 0 to 11 carry into the year), plus \<open>date - 1\<close>. ECMA-262 asks for a
  time value \<open>t\<close> whose year is \<open>ym\<close>, whose month is \<open>mn\<close> and whose date is 1;
  \<open>MakeDay_finds\<close> shows that the day computed here is the day of such a \<open>t\<close>.
\<close>

definition MakeDay :: "jsnum \<Rightarrow> jsnum \<Rightarrow> jsnum \<Rightarrow> jsnum" where
  "MakeDay year month date =
     (case (year, month, date) of
        (Some y, Some m, Some dt) \<Rightarrow>
          (let ym = y + m div 12; mn = m mod 12
           in Some (DayFromYear ym + monthStart mn (if DaysInYear ym = 366 then 1 else 0) + dt - 1))
      | _ \<Rightarrow> None)"

definition MakeDate :: "jsnum \<Rightarrow> jsnum \<Rightarrow> jsnum" where
  "MakeDate day time =
     (case (day, time) of (Some d, Some tm) \<Rightarrow> Some (d * msPerDay + tm) | _ \<Rightarrow> None)"

definition TimeClip :: "jsnum \<Rightarrow> jsnum" where
  "TimeClip time =
     (case time of
        None \<Rightarrow> None
      | Some t \<Rightarrow> if \<bar>t\<bar> > 8640000000000000 then None else Some t)"

text \<open>\<open>Date.UTC(year, month, day)\<close>: a year from 0 to 99 means 1900 + year.\<close>

definition Date_UTC :: "jsnum \<Rightarrow> jsnum \<Rightarrow> jsnum \<Rightarrow> jsnum" where
  "Date_UTC year month day =
     (let yr = (case year of
                  None \<Rightarrow> None
                | Some y \<Rightarrow> if 0 \<le> y \<and> y \<le> 99 then Some (1900 + y) else Some y)
      in TimeClip (MakeDate (MakeDay yr month day) (Some 0)))"

definition new_Date :: "jsnum \<Rightarrow> jsdate" where
  "new_Date v = TimeClip v"

definition getTime :: "jsdate \<Rightarrow> jsnum" where
  "getTime d = d"

definition getUTCDate :: "jsdate \<Rightarrow> jsnum" where
  "getUTCDate d = (case d of None \<Rightarrow> None | Some t \<Rightarrow> Some (DateFromTime t))"

definition setUTCDate :: "jsdate \<Rightarrow> jsnum \<Rightarrow> jsdate" where
  "setUTCDate d date =
     (case d of
        None \<Rightarrow> None
      | Some t \<Rightarrow>
          TimeClip (MakeDate (MakeDay (Some (YearFromTime t)) (Some (MonthFromTime t)) date)
                             (Some (TimeWithinDay t))))"

fun pad_digits :: "nat \<Rightarrow> int \<Rightarrow> string" where
  "pad_digits 0 n = []"
| "pad_digits (Suc k) n = pad_digits k (n div 10) @ [digit_char (n mod 10)]"

text \<open>
  \<open>toISOString\<close>: \<open>YYYY-MM-DDTHH:mm:ss.sssZ\<close>, the year with four digits from 0 to 9999 and
  with a sign and six digits otherwise; a \<open>RangeError\<close> on an invalid date.
\<close>

definition isoYear :: "int \<Rightarrow> string" where
  "isoYear y =
     (if 0 \<le> y \<and> y \<le> 9999 then pad_digits 4 y
      else (if y < 0 then ''-'' else ''+'') @ pad_digits 6 \<bar>y\<bar>)"

definition isoDatePart :: "int \<Rightarrow> string" where
  "isoDatePart t =
     isoYear (YearFromTime t) @ ''-'' @ pad_digits 2 (MonthFromTime t + 1) @ ''-''
       @ pad_digits 2 (DateFromTime t)"

definition isoTimePart :: "int \<Rightarrow> string" where
  "isoTimePart t =
     pad_digits 2 (TimeWithinDay t div 3600000) @ '':''
       @ pad_digits 2 (TimeWithinDay t div 60000 mod 60) @ '':''
       @ pad_digits 2 (TimeWithinDay t div 1000 mod 60) @ ''.''
       @ pad_digits 3 (TimeWithinDay t mod 1000)"

definition toISOString :: "jsdate \<Rightarrow> js_error + string" where
  "toISOString d =
     (case d of
        None \<Rightarrow> Inl RangeError
      | Some t \<Rightarrow> Inr (isoDatePart t @ ''T'' @ isoTimePart t @ ''Z''))"


section \<open>\<open>utils/dateUtils\<close>\<close>

definition addDays :: "string \<Rightarrow> int \<Rightarrow> js_error + string" where
  "addDays dateStr daysToAdd =
     (let parts = js_split CHR ''-'' dateStr;
          year = parseInt_at parts 0;
          month = js_sub (parseInt_at parts 1) (Some 1);
          day = parseInt_at parts 2;
          date = new_Date (Date_UTC year month day);
          date' = setUTCDate date (js_add (getUTCDate date) (Some daysToAdd))
      in case toISOString date' of
           Inl e \<Rightarrow> Inl e
         | Inr s \<Rightarrow> Inr (hd (js_split CHR ''T'' s)))"

text \<open>
  The loop of \<open>getDaysArray\<close>: \<open>arr\<close> is the array being filled, \<open>dt\<close> the date object
  the loop advances in place. A comparison with \<open>NaN\<close> is false and ends the loop.
\<close>

function daysLoop :: "jsdate list \<Rightarrow> jsdate \<Rightarrow> jsdate \<Rightarrow> jsdate list" where
  "daysLoop arr dt endDt =
     (if js_le (getTime dt) (getTime endDt)
      then daysLoop (arr @ [new_Date dt]) (setUTCDate dt (js_add (getUTCDate dt) (Some 1))) endDt
      else arr)"
  by pat_completeness auto

definition getDaysArray :: "string \<Rightarrow> string \<Rightarrow> jsdate list" where
  "getDaysArray start finish =
     (let s = map Number (js_split CHR ''-'' start);
          dt = new_Date (Date_UTC (num_at s 0) (js_sub (num_at s 1) (Some 1)) (num_at s 2));
          e = map Number (js_split CHR ''-'' finish);
          endDt = new_Date (Date_UTC (num_at e 0) (js_sub (num_at e 1) (Some 1)) (num_at e 2))
      in if isNaN (getTime dt) \<or> isNaN (getTime endDt) then [] else daysLoop [] dt endDt)"

text \<open>
  The date object \<open>getDaysArray\<close> builds from one of its two strings (the same four lines
  of the source, for \<open>start\<close> and for \<open>end\<close>); \<open>None\<close> is an invalid date.
\<close>

definition utcOf :: "string \<Rightarrow> jsdate" where
  "utcOf str =
     (let s = map Number (js_split CHR ''-'' str)
      in new_Date (Date_UTC (num_at s 0) (js_sub (num_at s 1) (Some 1)) (num_at s 2)))"


section \<open>The trip and activity store\<close>

text \<open>
  \<open>Trip\<close> and \<open>Activity\<close> of \<open>types.ts\<close>; the rows of the tables \<open>trips\<close> and \<open>activities\<close>
  carry the same fields under the names of their columns. The budget plays no part in the
  day-shift logic and is kept as an integer.
\<close>

record trip =
  t_id :: string
  userId :: string
  destination :: string
  startDate :: string
  endDate :: string
  budget :: int
  imageUrl :: "string option"
  t_notes :: "string option"

record activity =
  a_id :: string
  tripId :: string
  a_date :: string
  description :: string
  a_time :: "string option"
  isCompleted :: bool

record store =
  trips :: "trip list"
  activities :: "activity list"

text \<open>
  The columns \<open>start_date\<close>, \<open>end_date\<close> and \<open>date\<close> have the SQL type \<open>date\<close>: a value is
  handed out as the text \<open>YYYY-MM-DD\<close>, and a date written in a filter or an update is read
  by the database. \<open>pg_date\<close> is that reading, to a day number (days since 1970-01-01):
  it accepts the text \<open>YYYY-MM-DD\<close> of a date of the calendar from year 1 to year 9999 and
  rejects anything else. (The database reads further spellings of a date; the application
  writes none of them, and every theorem below is about dates in the form accepted here.)
\<close>

definition daysInMonth :: "int \<Rightarrow> int \<Rightarrow> int" where
  "daysInMonth y m =
     [31, if DaysInYear y = 366 then 29 else 28, 31, 30, 31, 30, 31, 31, 30, 31, 30, 31]
       ! nat (m - 1)"

definition pg_date :: "string \<Rightarrow> int option" where
  "pg_date s =
     (if length s = 10 \<and> s ! 4 = CHR ''-'' \<and> s ! 7 = CHR ''-''
         \<and> list_all is_digit (take 4 s) \<and> list_all is_digit (take 2 (drop 5 s))
         \<and> list_all is_digit (drop 8 s)
      then (let y = digits_value (take 4 s);
                m = digits_value (take 2 (drop 5 s));
                d = digits_value (drop 8 s)
            in if 1 \<le> y \<and> 1 \<le> m \<and> m \<le> 12 \<and> 1 \<le> d \<and> d \<le> daysInMonth y m
               then MakeDay (Some y) (Some (m - 1)) (Some d)
               else None)
      else None)"

definition date_eq :: "string \<Rightarrow> int \<Rightarrow> bool" where
  "date_eq s v = (pg_date s = Some v)"

definition date_gt :: "string \<Rightarrow> int \<Rightarrow> bool" where
  "date_gt s v = (case pg_date s of None \<Rightarrow> False | Some k \<Rightarrow> v < k)"

text \<open>The four requests the day-shift logic sends to the store.\<close>

datatype db_request =
    DeleteActivitiesOn string string
  | SelectActivitiesAfter string string
  | UpdateActivityDate string string
  | UpdateTripDates string string string

datatype db_error = InvalidDate

text \<open>
  What the store does with a request: the new content of the tables and the rows handed
  back, or an error that leaves the tables as they were.
  \<^item> \<open>from('activities').delete().eq('trip_id', tid).eq('date', d)\<close>
  \<^item> \<open>from('activities').select('*').eq('trip_id', tid).gt('date', d)\<close>
  \<^item> \<open>from('activities').update({ date: nd }).eq('id', aid)\<close>
  \<^item> \<open>from('trips').update({ start_date: s, end_date: e }).eq('id', tid)\<close>
\<close>

fun db_exec :: "db_request \<Rightarrow> store \<Rightarrow> db_error + store \<times> activity list" where
  "db_exec (DeleteActivitiesOn tid d) st =
     (case pg_date d of
        None \<Rightarrow> Inl InvalidDate
      | Some v \<Rightarrow>
          Inr (st\<lparr>activities :=
                     filter (\<lambda>a. \<not> (tripId a = tid \<and> date_eq (a_date a) v)) (activities st)\<rparr>,
               []))"
| "db_exec (SelectActivitiesAfter tid d) st =
     (case pg_date d of
        None \<Rightarrow> Inl InvalidDate
      | Some v \<Rightarrow>
          Inr (st, filter (\<lambda>a. tripId a = tid \<and> date_gt (a_date a) v) (activities st)))"
| "db_exec (UpdateActivityDate aid nd) st =
     (case pg_date nd of
        None \<Rightarrow> Inl InvalidDate
      | Some v \<Rightarrow>
          Inr (st\<lparr>activities :=
                     map (\<lambda>a. if a_id a = aid then a\<lparr>a_date := nd\<rparr> else a) (activities st)\<rparr>,
               []))"
| "db_exec (UpdateTripDates tid s e) st =
     (case (pg_date s, pg_date e) of
        (Some v, Some v') \<Rightarrow>
          Inr (st\<lparr>trips :=
                     map (\<lambda>r. if t_id r = tid then r\<lparr>startDate := s, endDate := e\<rparr> else r)
                         (trips st)\<rparr>,
               [])
      | _ \<Rightarrow> Inl InvalidDate)"


section \<open>The application: \<open>App.tsx\<close> and \<open>components/TripItinerary.tsx\<close>\<close>

text \<open>
  The world the handlers act on: the store, the alerts shown to the user, the log of the
  requests issued to the store and of their settlements, and the time the network takes
  to settle each request (requests issued together settle in the order of that time,
  whatever it is). The copies of the tables that the component keeps are refreshed from
  the store (\<open>fetchData\<close>) and are not modelled on their own; the trip a handler works
  on is passed to it.
\<close>

datatype alert = AtLeastOneDay | FailedToUpdateDates | FailedToRemoveDay

datatype event = Issued db_request | Settled db_request

record world =
  db :: store
  alerts :: "alert list"
  reqlog :: "event list"
  latency :: "db_request \<Rightarrow> nat"

text \<open>\<open>await\<close> of one request: it is issued, the store answers, it is settled.\<close>

definition await_db :: "db_request \<Rightarrow> world \<Rightarrow> (db_error + activity list) \<times> world" where
  "await_db r w =
     (case db_exec r (db w) of
        Inl e \<Rightarrow> (Inl e, w\<lparr>reqlog := reqlog w @ [Issued r, Settled r]\<rparr>)
      | Inr (st, rows) \<Rightarrow> (Inr rows, w\<lparr>db := st, reqlog := reqlog w @ [Issued r, Settled r]\<rparr>))"

text \<open>
  \<open>await Promise.all(rs)\<close>: all requests are issued, in the order of the array; the
  handler goes on when every one of them is settled, in the order of the time the
  network takes for each. The store is taken to handle them in the order of the array
  (the updates of step B of \<open>handleRemoveDay\<close> name rows by their primary key, one row
  each). The answers are not looked at, so a rejected update changes nothing and raises
  nothing.
\<close>

definition await_all :: "db_request list \<Rightarrow> world \<Rightarrow> world" where
  "await_all rs w =
     w\<lparr>db := foldl (\<lambda>st r. case db_exec r st of Inl e \<Rightarrow> st | Inr (st', rows) \<Rightarrow> st') (db w) rs,
       reqlog := reqlog w @ map Issued rs @ map Settled (sort_key (latency w) rs)\<rparr>"

definition handleUpdateTripDates :: "string \<Rightarrow> string \<Rightarrow> string \<Rightarrow> world \<Rightarrow> world" where
  "handleUpdateTripDates tid newStartDate newEndDate w =
     (case await_db (UpdateTripDates tid newStartDate newEndDate) w of
        (Inl e, w') \<Rightarrow> w'\<lparr>alerts := alerts w' @ [FailedToUpdateDates]\<rparr>
      | (Inr rows, w') \<Rightarrow> w')"

text \<open>
  The requests of step B of \<open>handleRemoveDay\<close>, built by \<open>actsToShift.map\<close>: an exception of
  \<open>addDays\<close> leaves \<open>map\<close> before any request is issued.
\<close>

fun shiftRequests :: "activity list \<Rightarrow> js_error + db_request list" where
  "shiftRequests [] = Inr []"
| "shiftRequests (act # acts) =
     (case addDays (a_date act) (- 1) of
        Inl e \<Rightarrow> Inl e
      | Inr newDate \<Rightarrow>
          (case shiftRequests acts of
             Inl e \<Rightarrow> Inl e
           | Inr rs \<Rightarrow> Inr (UpdateActivityDate (a_id act) newDate # rs)))"

text \<open>
  \<open>handleRemoveDay\<close>. Whatever is thrown inside its \<open>try\<close> is caught and shown as an alert;
  what the store has done by then stays done. The closing \<open>await fetchData()\<close> reads the
  tables again into the copies of the component and changes nothing in the store.
\<close>

definition caught :: "world \<Rightarrow> world" where
  "caught w = w\<lparr>alerts := alerts w @ [FailedToRemoveDay]\<rparr>"

definition handleRemoveDay :: "trip option \<Rightarrow> string \<Rightarrow> world \<Rightarrow> world" where
  "handleRemoveDay activeTrip dateToRemove w =
     (case activeTrip of
        None \<Rightarrow> w
      | Some t \<Rightarrow>
          (let isStart = (dateToRemove = startDate t);
               isEnd = (dateToRemove = endDate t)
           in case await_db (DeleteActivitiesOn (t_id t) dateToRemove) w of
                (Inl delError, w1) \<Rightarrow> caught w1
              | (Inr rows, w1) \<Rightarrow>
                  if isStart then
                    (case addDays (startDate t) 1 of
                       Inl e \<Rightarrow> caught w1
                     | Inr newStartDate \<Rightarrow> handleUpdateTripDates (t_id t) newStartDate (endDate t) w1)
                  else if isEnd then
                    (case addDays (endDate t) (- 1) of
                       Inl e \<Rightarrow> caught w1
                     | Inr newEndDate \<Rightarrow> handleUpdateTripDates (t_id t) (startDate t) newEndDate w1)
                  else
                    (case await_db (SelectActivitiesAfter (t_id t) dateToRemove) w1 of
                       (Inl fetchError, w2) \<Rightarrow> caught w2
                     | (Inr actsToShift, w2) \<Rightarrow>
                         (case shiftRequests actsToShift of
                            Inl e \<Rightarrow> caught w2
                          | Inr rs \<Rightarrow>
                              (let w3 = (if actsToShift \<noteq> [] then await_all rs w2 else w2)
                               in case addDays (endDate t) (- 1) of
                                    Inl e \<Rightarrow> caught w3
                                  | Inr newEndDate \<Rightarrow>
                                      handleUpdateTripDates (t_id t) (startDate t) newEndDate w3)))))"


text \<open>
  \<open>handleRemoveClick\<close>: \<open>days\<close> is the array the view enumerates, \<open>deletingDate\<close> the day
  being removed (a string or \<open>null\<close>; the empty string is falsy), \<open>confirmed\<close> the answer
  to \<open>confirm\<close>.
\<close>

definition handleRemoveClick ::
  "trip \<Rightarrow> bool \<Rightarrow> string option \<Rightarrow> bool \<Rightarrow> string \<Rightarrow> nat \<Rightarrow> world \<Rightarrow> world" where
  "handleRemoveClick t isUpdating deletingDate confirmed dateStr index w =
     (let days = getDaysArray (startDate t) (endDate t)
      in if length days \<le> 1 then w\<lparr>alerts := alerts w @ [AtLeastOneDay]\<rparr>
         else if isUpdating \<or> (deletingDate \<noteq> None \<and> deletingDate \<noteq> Some []) then w
         else if confirmed then handleRemoveDay (Some t) dateStr w
         else w)"

text \<open>
  The text of day number \<open>k\<close>, as \<open>toISOString().split('T')[0]\<close> gives it for the date
  object of that day: the form in which the view names a day and the store hands out a
  date. \<open>valid_day\<close> is the range of the years 0100 to 9999, where that text has four
  digits of year and \<open>Date.UTC\<close> reads the year as it is written; the texts of the valid
  days are the strings \<open>YYYY-MM-DD\<close> of the calendar in that range (\<open>valid_iso_text\<close>).
\<close>

definition isoDate :: "int \<Rightarrow> string" where
  "isoDate k = isoDatePart (k * msPerDay)"

definition valid_day :: "int \<Rightarrow> bool" where
  "valid_day k = (DayFromYear 100 \<le> k \<and> k < DayFromYear 10000)"


text \<open>
  The trip of the examples of the specification: 2024-03-01 to 2024-03-05, with
  activities on 03-01, 03-03, 03-04 and 03-05.
\<close>

definition example_trip :: trip where
  "example_trip =
     \<lparr>t_id = ''t1'', userId = ''u1'', destination = ''Goa'', startDate = ''2024-03-01'',
      endDate = ''2024-03-05'', budget = 0, imageUrl = None, t_notes = None\<rparr>"

definition example_activity :: "string \<Rightarrow> string \<Rightarrow> activity" where
  "example_activity i d =
     \<lparr>a_id = i, tripId = ''t1'', a_date = d, description = ''visit'', a_time = None,
      isCompleted = False\<rparr>"

definition example_world :: world where
  "example_world =
     \<lparr>db = \<lparr>trips = [example_trip],
            activities = [example_activity ''a1'' ''2024-03-01'',
                          example_activity ''a2'' ''2024-03-03'',
                          example_activity ''a3'' ''2024-03-04'',
                          example_activity ''a4'' ''2024-03-05'']\<rparr>,
      alerts = [], reqlog = [],
      latency = (\<lambda>r. case r of UpdateActivityDate i nd \<Rightarrow> (if i = ''a3'' then 2 else 1)
                              | _ \<Rightarrow> 0)\<rparr>"





section \<open>The calendar of ECMA-262\<close>

lemma Day_mult: "Day (d * msPerDay) = d"
  by (simp add: Day_def msPerDay_def)

lemma TimeWithinDay_mult: "TimeWithinDay (d * msPerDay) = 0"
  by (simp add: TimeWithinDay_def msPerDay_def)

lemma Day_TimeWithinDay: "Day t * msPerDay + TimeWithinDay t = t"
  by (simp add: Day_def TimeWithinDay_def)

lemma div_succ:
  fixes k n :: int
  assumes "0 < n"
  shows "(k + 1) div n = k div n + (if (k + 1) mod n = 0 then 1 else 0)"
proof -
  define q r where "q = k div n" and "r = k mod n"
  have k: "k = n * q + r" and r: "0 \<le> r" "r < n"
    using assms by (simp_all add: q_def r_def)
  show ?thesis
  proof (cases "r = n - 1")
    case True
    then have e: "k + 1 = n * (q + 1) + 0"
      using k by (simp add: algebra_simps)
    have "(k + 1) div n = q + 1" "(k + 1) mod n = 0"
      using int_div_pos_eq [OF e] int_mod_pos_eq [OF e] assms by simp_all
    then show ?thesis by (simp add: q_def)
  next
    case False
    then have e: "k + 1 = n * q + (r + 1)" and b: "0 \<le> r + 1" "r + 1 < n"
      using k r by simp_all
    have "(k + 1) div n = q" "(k + 1) mod n = r + 1"
      using int_div_pos_eq [OF e b] int_mod_pos_eq [OF e b] by simp_all
    then show ?thesis using r by (simp add: q_def)
  qed
qed

lemma mod_shift: "0 < n \<Longrightarrow> ((y::int) - n * c) mod n = y mod n"
  by (metis mod_mult_self2 diff_conv_add_uminus mult_minus_right)

lemma DayFromYear_step: "DayFromYear (y + 1) = DayFromYear y + DaysInYear y"
proof -
  have a: "(y - 1968) div 4 = (y - 1969) div 4 + (if y mod 4 = 0 then 1 else 0)"
    using div_succ [of 4 "y - 1969"] mod_shift [of 4 y 492] by simp
  have b: "(y - 1900) div 100 = (y - 1901) div 100 + (if y mod 100 = 0 then 1 else 0)"
    using div_succ [of 100 "y - 1901"] mod_shift [of 100 y 19] by simp
  have c: "(y - 1600) div 400 = (y - 1601) div 400 + (if y mod 400 = 0 then 1 else 0)"
    using div_succ [of 400 "y - 1601"] mod_shift [of 400 y 4] by simp
  have m1: "y mod 400 = 0 \<Longrightarrow> y mod 100 = 0"
    using dvd_trans [of 100 400 y] by (simp add: mod_eq_0_iff_dvd)
  have m2: "y mod 100 = 0 \<Longrightarrow> y mod 4 = 0"
    using dvd_trans [of 4 100 y] by (simp add: mod_eq_0_iff_dvd)
  have "DayFromYear (y + 1) =
        365 * (y - 1969) + (y - 1968) div 4 - (y - 1900) div 100 + (y - 1600) div 400"
    by (simp add: DayFromYear_def)
  also have "\<dots> = DayFromYear y + DaysInYear y"
    unfolding a b c using m1 m2 by (simp add: DayFromYear_def DaysInYear_def)
  finally show ?thesis .
qed

lemma DaysInYear_bounds: "365 \<le> DaysInYear y" "DaysInYear y \<le> 366"
  by (simp_all add: DaysInYear_def)

lemma DayFromYear_less_step: "DayFromYear y < DayFromYear (y + 1)"
  using DaysInYear_bounds(1) [of y] by (simp add: DayFromYear_step)

lemma DayFromYear_mono: "y \<le> z \<Longrightarrow> DayFromYear y \<le> DayFromYear z"
proof (induction z rule: int_ge_induct)
  case base
  show ?case by simp
next
  case (step i)
  then show ?case using DayFromYear_less_step [of i] by simp
qed

lemma DayFromYear_strict: "y < z \<Longrightarrow> DayFromYear y < DayFromYear z"
  using DayFromYear_mono [of "y + 1" z] DayFromYear_less_step [of y] by simp

lemma div_lower: "0 < n \<Longrightarrow> (k::int) < n * (k div n) + n"
  using pos_mod_bound [of n k] mult_div_mod_eq [of n k] by linarith

lemma div_upper: "0 < n \<Longrightarrow> n * ((k::int) div n) \<le> k"
  using pos_mod_sign [of n k] mult_div_mod_eq [of n k] by linarith

lemma year_estimate_lower: "DayFromYear (1970 + (400 * d) div 146097 - 1) \<le> d"
proof -
  define q where "q = (400 * d) div 146097"
  define a b c where "a = q div 4" and "b = (q + 68) div 100" and "c = (q + 368) div 400"
  have q: "146097 * q \<le> 400 * d" unfolding q_def by (rule div_upper) simp
  have a: "4 * a \<le> q" unfolding a_def by (rule div_upper) simp
  have b: "q + 68 < 100 * b + 100" unfolding b_def by (rule div_lower) simp
  have c: "400 * c \<le> q + 368" unfolding c_def by (rule div_upper) simp
  have "DayFromYear (1970 + q - 1) = 365 * q - 365 + a - b + c"
    by (simp add: DayFromYear_def add.commute a_def b_def c_def)
  also have "\<dots> \<le> d" using q a b c by linarith
  finally show ?thesis by (simp add: q_def)
qed

lemma year_estimate_upper: "d < DayFromYear (1970 + (400 * d) div 146097 + 2)"
proof -
  define q where "q = (400 * d) div 146097"
  define a b c where "a = (q + 3) div 4" and "b = (q + 71) div 100" and "c = (q + 371) div 400"
  have q: "400 * d < 146097 * q + 146097" unfolding q_def by (rule div_lower) simp
  have a: "q + 3 < 4 * a + 4" unfolding a_def by (rule div_lower) simp
  have b: "100 * b \<le> q + 71" unfolding b_def by (rule div_upper) simp
  have c: "q + 371 < 400 * c + 400" unfolding c_def by (rule div_lower) simp
  have "DayFromYear (1970 + q + 2) = 365 * q + 730 + a - b + c"
    by (simp add: DayFromYear_def add.commute a_def b_def c_def)
  moreover have "d < 365 * q + 730 + a - b + c"
    using q a b c by linarith
  ultimately show ?thesis by (simp add: q_def)
qed

lemma YearFromTime_lower: "DayFromYear (YearFromTime t) \<le> Day t"
  using year_estimate_lower [of "Day t"] by (simp add: YearFromTime_def Let_def)

lemma YearFromTime_upper: "Day t < DayFromYear (YearFromTime t + 1)"
  using year_estimate_upper [of "Day t"] by (simp add: YearFromTime_def Let_def)

lemma YearFromTime_unique:
  assumes "DayFromYear y \<le> Day t" "Day t < DayFromYear (y + 1)"
  shows "YearFromTime t = y"
proof (rule ccontr)
  assume "YearFromTime t \<noteq> y"
  then consider "YearFromTime t + 1 \<le> y" | "y + 1 \<le> YearFromTime t" by linarith
  then show False
  proof cases
    case 1
    then show False
      using DayFromYear_mono [of "YearFromTime t + 1" y] YearFromTime_upper [of t] assms by linarith
  next
    case 2
    then show False
      using DayFromYear_mono [of "y + 1" "YearFromTime t"] YearFromTime_lower [of t] assms by linarith
  qed
qed


lemma DayWithinYear_bounds: "0 \<le> DayWithinYear t" "DayWithinYear t < DaysInYear (YearFromTime t)"
  using YearFromTime_lower [of t] YearFromTime_upper [of t]
  by (simp_all add: DayWithinYear_def DayFromYear_step)

lemma InLeapYear_cases: "InLeapYear t = 0 \<and> DaysInYear (YearFromTime t) = 365 \<or>
    InLeapYear t = 1 \<and> DaysInYear (YearFromTime t) = 366"
  by (simp add: InLeapYear_def DaysInYear_def)

lemma MonthFromTime_range: "0 \<le> MonthFromTime t" "MonthFromTime t \<le> 11"
  by (simp_all add: MonthFromTime_def Let_def)

lemma month_date:
  "monthStart (MonthFromTime t) (InLeapYear t) + DateFromTime t - 1 = DayWithinYear t"
  by (simp add: monthStart_def DateFromTime_def MonthFromTime_def Let_def)

lemma DateFromTime_range: "1 \<le> DateFromTime t" "DateFromTime t \<le> 31"
  using DayWithinYear_bounds [of t] InLeapYear_cases [of t]
  by (auto simp add: DateFromTime_def MonthFromTime_def Let_def)

lemma MakeDay_fields:
  "MakeDay (Some (YearFromTime t)) (Some (MonthFromTime t)) (Some dt) =
     Some (Day t - DateFromTime t + dt)"
proof -
  have m: "MonthFromTime t div 12 = 0" "MonthFromTime t mod 12 = MonthFromTime t"
    using MonthFromTime_range [of t] by simp_all
  have l: "(if DaysInYear (YearFromTime t) = 366 then 1 else 0) = InLeapYear t"
    by (simp add: InLeapYear_def)
  show ?thesis
    using month_date [of t] by (simp add: MakeDay_def m l DayWithinYear_def)
qed

lemma setUTCDate_add:
  "setUTCDate (Some t) (js_add (getUTCDate (Some t)) (Some n)) = TimeClip (Some (t + n * msPerDay))"
proof -
  have "(Day t + n) * msPerDay + TimeWithinDay t = t + n * msPerDay"
    using Day_TimeWithinDay [of t] by (simp add: algebra_simps)
  then show ?thesis
    by (simp add: setUTCDate_def getUTCDate_def js_add_def MakeDay_fields MakeDate_def)
qed


lemma TimeClip_Some: "TimeClip (Some t) = Some u \<Longrightarrow> u = t"
  by (simp add: TimeClip_def split: if_splits)

termination daysLoop
proof (relation "measure (\<lambda>(arr, dt, endDt).
          case (dt, endDt) of (Some a, Some b) \<Rightarrow> nat (b - a + 1) | _ \<Rightarrow> 0)")
  show "wf (measure (\<lambda>(arr, dt, endDt).
          case (dt, endDt) of (Some a, Some b) \<Rightarrow> nat (b - a + 1) | _ \<Rightarrow> 0))"
    by simp
next
  fix arr :: "jsdate list" and dt endDt :: jsdate
  assume le: "js_le (getTime dt) (getTime endDt)"
  then obtain a b where ab: "dt = Some a" "endDt = Some b" "a \<le> b"
    by (auto simp add: js_le_def getTime_def split: option.splits)
  have "setUTCDate dt (js_add (getUTCDate dt) (Some 1)) = TimeClip (Some (a + 1 * msPerDay))"
    unfolding ab by (rule setUTCDate_add)
  then show "((arr @ [new_Date dt], setUTCDate dt (js_add (getUTCDate dt) (Some 1)), endDt),
              (arr, dt, endDt))
             \<in> measure (\<lambda>(arr, dt, endDt).
                   case (dt, endDt) of (Some a, Some b) \<Rightarrow> nat (b - a + 1) | _ \<Rightarrow> 0)"
    using ab by (auto simp add: TimeClip_def msPerDay_def split: option.splits)
qed

declare daysLoop.simps [simp del]


lemma digit_char_ok:
  assumes "0 \<le> d" "d < 10"
  shows "is_digit (digit_char d)" "digit_val (digit_char d) = d"
proof -
  from assms have "d = 0 \<or> d = 1 \<or> d = 2 \<or> d = 3 \<or> d = 4 \<or> d = 5 \<or> d = 6 \<or> d = 7
      \<or> d = 8 \<or> d = 9" by arith
  then show "is_digit (digit_char d)" "digit_val (digit_char d) = d"
    by (auto simp add: digit_char_def is_digit_def digit_val_def)
qed

lemma is_digit_not_special:
  "is_digit c \<Longrightarrow> c \<noteq> CHR ''-'' \<and> c \<noteq> CHR ''+'' \<and> c \<noteq> CHR ''T'' \<and> \<not> is_ws c"
  by (auto simp add: is_digit_def is_ws_def)

lemma length_pad_digits [simp]: "length (pad_digits k n) = k"
  by (induction k arbitrary: n) simp_all

lemma pad_digits_all_digit: "list_all is_digit (pad_digits k n)"
proof (induction k arbitrary: n)
  case 0
  show ?case by simp
next
  case (Suc k)
  have "is_digit (digit_char (n mod 10))" by (rule digit_char_ok) simp_all
  then show ?case using Suc.IH [of "n div 10"] by simp
qed

lemma foldl_pad_digits:
  "0 \<le> n \<Longrightarrow>
   foldl (\<lambda>a c. 10 * a + digit_val c) a (pad_digits k n) = a * 10 ^ k + n mod 10 ^ k"
proof (induction k arbitrary: n)
  case 0
  show ?case by simp
next
  case (Suc k)
  have d: "digit_val (digit_char (n mod 10)) = n mod 10" by (rule digit_char_ok) simp_all
  have "0 \<le> n div 10" using Suc.prems by simp
  then have ih: "foldl (\<lambda>a c. 10 * a + digit_val c) a (pad_digits k (n div 10))
                 = a * 10 ^ k + n div 10 mod 10 ^ k"
    by (rule Suc.IH)
  have m: "n mod 10 ^ Suc k = 10 * (n div 10 mod 10 ^ k) + n mod 10"
    using zmod_zmult2_eq [of "10 ^ k" n 10] by simp
  have "foldl (\<lambda>a c. 10 * a + digit_val c) a (pad_digits (Suc k) n)
        = 10 * (a * 10 ^ k + n div 10 mod 10 ^ k) + n mod 10"
    by (simp add: ih d)
  also have "\<dots> = a * 10 ^ Suc k + n mod 10 ^ Suc k"
    unfolding m by (simp add: algebra_simps)
  finally show ?case .
qed

lemma digits_value_pad: "0 \<le> n \<Longrightarrow> n < 10 ^ k \<Longrightarrow> digits_value (pad_digits k n) = n"
  by (simp add: digits_value_def foldl_pad_digits)

lemma takeWhile_all: "list_all P xs \<Longrightarrow> takeWhile P xs = xs"
  by (induction xs) simp_all

lemma parseInt_digits:
  assumes "list_all is_digit z" "z \<noteq> []"
  shows "parseInt z = Some (digits_value z)"
proof -
  obtain c cs where z: "z = c # cs" using assms(2) by (cases z) auto
  then have c: "is_digit c" using assms(1) by simp
  have t: "dropWhile is_ws z = z" using is_digit_not_special [OF c] by (simp add: z)
  have h: "hd z \<noteq> CHR ''-''" "hd z \<noteq> CHR ''+''"
    using is_digit_not_special [OF c] by (simp_all add: z)
  show ?thesis
    using assms by (simp add: parseInt_def t h takeWhile_all)
qed

lemma parseInt_plus_digits:
  assumes "list_all is_digit z" "z \<noteq> []"
  shows "parseInt (CHR ''+'' # z) = Some (digits_value z)"
  using assms by (simp add: parseInt_def is_ws_def takeWhile_all)



lemma js_split_no_sep: "sep \<notin> set a \<Longrightarrow> js_split sep a = [a]"
  by (induction a) auto

lemma js_split_append:
  "sep \<notin> set a \<Longrightarrow> js_split sep (a @ sep # rest) = a # js_split sep rest"
  by (induction a) auto


section \<open>Reading back what \<open>toISOString\<close> writes\<close>

lemma YearFromTime_ge: "DayFromYear y \<le> Day t \<Longrightarrow> y \<le> YearFromTime t"
  using DayFromYear_mono [of "YearFromTime t + 1" y] YearFromTime_upper [of t] by linarith

lemma YearFromTime_less: "Day t < DayFromYear y \<Longrightarrow> YearFromTime t < y"
  using DayFromYear_mono [of y "YearFromTime t"] YearFromTime_lower [of t] by linarith

lemma pad_digits_set: "c \<in> set (pad_digits k n) \<Longrightarrow> is_digit c"
  using pad_digits_all_digit [of k n] by (simp add: list_all_iff)

lemma isoYear_set: "c \<in> set (isoYear y) \<Longrightarrow> is_digit c \<or> c = CHR ''-'' \<or> c = CHR ''+''"
  by (auto simp add: isoYear_def dest: pad_digits_set split: if_splits)

lemma isoDatePart_set:
  "c \<in> set (isoDatePart t) \<Longrightarrow> is_digit c \<or> c = CHR ''-'' \<or> c = CHR ''+''"
  by (auto simp add: isoDatePart_def dest: pad_digits_set isoYear_set)

lemma isoDatePart_no_T: "CHR ''T'' \<notin> set (isoDatePart t)"
  using isoDatePart_set [of "CHR ''T''" t] is_digit_not_special [of "CHR ''T''"] by auto

lemma hd_split_T: "hd (js_split CHR ''T'' (isoDatePart t @ CHR ''T'' # rest)) = isoDatePart t"
  using js_split_append [OF isoDatePart_no_T, of t rest] by simp

lemma addDays_result:
  "addDays s n =
     (let parts = js_split CHR ''-'' s;
          date = new_Date (Date_UTC (parseInt_at parts 0) (js_sub (parseInt_at parts 1) (Some 1))
                                    (parseInt_at parts 2))
      in case setUTCDate date (js_add (getUTCDate date) (Some n)) of
           None \<Rightarrow> Inl RangeError
         | Some t \<Rightarrow> Inr (isoDatePart t))"
  by (simp add: addDays_def toISOString_def Let_def hd_split_T split: option.splits)

lemma isoYear_nonneg_no_dash: "0 \<le> y \<Longrightarrow> CHR ''-'' \<notin> set (isoYear y)"
  using is_digit_not_special by (auto simp add: isoYear_def dest!: pad_digits_set)

lemma pad_digits_no_dash: "CHR ''-'' \<notin> set (pad_digits k n)"
  using is_digit_not_special by (auto dest!: pad_digits_set)

lemma split_isoDatePart:
  assumes "0 \<le> YearFromTime t"
  shows "js_split CHR ''-'' (isoDatePart t) =
           [isoYear (YearFromTime t), pad_digits 2 (MonthFromTime t + 1), pad_digits 2 (DateFromTime t)]"
  unfolding isoDatePart_def
  by (simp add: js_split_append [OF isoYear_nonneg_no_dash [OF assms]]
        js_split_append [OF pad_digits_no_dash] js_split_no_sep [OF pad_digits_no_dash]
        del: pad_digits.simps)

lemma pad_digits_nonempty: "0 < k \<Longrightarrow> pad_digits k n \<noteq> []"
  by (cases k) simp_all

lemma parseInt_pad: "0 < k \<Longrightarrow> 0 \<le> n \<Longrightarrow> n < 10 ^ k \<Longrightarrow> parseInt (pad_digits k n) = Some n"
  using parseInt_digits [OF pad_digits_all_digit pad_digits_nonempty, of k n]
  by (simp add: digits_value_pad)


lemma parseInt_isoYear: "0 \<le> y \<Longrightarrow> y < 1000000 \<Longrightarrow> parseInt (isoYear y) = Some y"
  using parseInt_pad [of 4 y] parseInt_plus_digits [OF pad_digits_all_digit pad_digits_nonempty, of 6 y]
    digits_value_pad [of y 6]
  by (simp add: isoYear_def del: pad_digits.simps)


lemma TimeClip_day: "\<bar>k\<bar> \<le> 100000000 \<Longrightarrow> TimeClip (Some (k * msPerDay)) = Some (k * msPerDay)"
  by (simp add: TimeClip_def msPerDay_def abs_if split: if_splits)

lemma TimeClip_day_out: "100000000 < \<bar>k\<bar> \<Longrightarrow> TimeClip (Some (k * msPerDay)) = None"
  by (simp add: TimeClip_def msPerDay_def abs_if split: if_splits)

lemma year_of_day_less: "k \<le> 100000000 \<Longrightarrow> YearFromTime (k * msPerDay) < 1000000"
  by (rule YearFromTime_less) (simp add: Day_mult DayFromYear_def)

lemma Date_UTC_fields:
  assumes "100 \<le> YearFromTime t"
  shows "Date_UTC (Some (YearFromTime t)) (Some (MonthFromTime t)) (Some (DateFromTime t))
           = TimeClip (Some (Day t * msPerDay))"
  using assms by (simp add: Date_UTC_def MakeDay_fields MakeDate_def)

lemma nth_three: "[a, b, c] ! 0 = a" "[a, b, c] ! 1 = b" "[a, b, c] ! 2 = c"
  by simp_all

lemma parse_isoDate:
  assumes "DayFromYear 100 \<le> k" "k \<le> 100000000"
  defines "parts \<equiv> js_split CHR ''-'' (isoDate k)"
  shows "new_Date (Date_UTC (parseInt_at parts 0) (js_sub (parseInt_at parts 1) (Some 1))
                            (parseInt_at parts 2)) = Some (k * msPerDay)"
proof -
  define t where "t = k * msPerDay"
  have day: "Day t = k" by (simp add: t_def Day_mult)
  have "DayFromYear 100 \<le> Day t" using assms(1) by (simp add: day)
  then have y1: "100 \<le> YearFromTime t" by (rule YearFromTime_ge)
  have y2: "YearFromTime t < 1000000" unfolding t_def by (rule year_of_day_less [OF assms(2)])
  note y = y1 y2
  have m: "0 \<le> MonthFromTime t + 1" "MonthFromTime t + 1 < 10 ^ 2"
    using MonthFromTime_range [of t] by simp_all
  have d: "0 \<le> DateFromTime t" "DateFromTime t < 10 ^ 2"
    using DateFromTime_range [of t] by simp_all
  have parts: "parts = [isoYear (YearFromTime t), pad_digits 2 (MonthFromTime t + 1),
                        pad_digits 2 (DateFromTime t)]"
    unfolding parts_def isoDate_def t_def [symmetric] using y by (intro split_isoDatePart) simp
  have p0: "parseInt_at parts 0 = Some (YearFromTime t)"
    using y by (simp add: parts parseInt_at_def parseInt_isoYear del: pad_digits.simps)
  have p1: "parseInt_at parts (Suc 0) = Some (MonthFromTime t + 1)"
    using parseInt_pad [OF _ m] by (simp add: parts parseInt_at_def del: pad_digits.simps)
  have p2: "parseInt_at parts 2 = Some (DateFromTime t)"
    using parseInt_pad [OF _ d] by (simp add: parts parseInt_at_def del: pad_digits.simps)
  have r: "\<bar>k\<bar> \<le> 100000000"
    using assms by (simp add: DayFromYear_def abs_if)
  show ?thesis
    using y(1) r by (simp add: p0 p1 p2 js_sub_def Date_UTC_fields day new_Date_def TimeClip_day)
qed

lemma addDays_isoDate_gen:
  assumes "DayFromYear 100 \<le> k" "k \<le> 100000000"
  shows "addDays (isoDate k) n =
           (if \<bar>k + n\<bar> \<le> 100000000 then Inr (isoDate (k + n)) else Inl RangeError)"
proof -
  have s: "setUTCDate (Some (k * msPerDay)) (js_add (getUTCDate (Some (k * msPerDay))) (Some n))
           = TimeClip (Some ((k + n) * msPerDay))"
    by (simp add: setUTCDate_add algebra_simps)
  have "addDays (isoDate k) n =
          (case TimeClip (Some ((k + n) * msPerDay)) of
             None \<Rightarrow> Inl RangeError
           | Some t \<Rightarrow> Inr (isoDatePart t))"
    unfolding addDays_result Let_def parse_isoDate [OF assms] s ..
  then show ?thesis
    using TimeClip_day [of "k + n"] TimeClip_day_out [of "k + n"]
    by (auto simp add: isoDate_def)
qed




section \<open>\<open>getDaysArray\<close>\<close>

lemma daysLoop_stop: "\<not> js_le (getTime dt) (getTime e) \<Longrightarrow> daysLoop arr dt e = arr"
  by (subst daysLoop.simps) simp

lemma daysLoop_step:
  "js_le (getTime (Some t)) (getTime e) \<Longrightarrow>
   daysLoop arr (Some t) e = daysLoop (arr @ [TimeClip (Some t)]) (TimeClip (Some (t + msPerDay))) e"
  using setUTCDate_add [of t 1] by (subst daysLoop.simps) (simp add: new_Date_def)

lemma year_of_day_le: "k < DayFromYear 10000 \<Longrightarrow> YearFromTime (k * msPerDay) \<le> 9999"
  using YearFromTime_less [of "k * msPerDay" 10000] by (simp add: Day_mult)





lemma getDaysArray_utcOf:
  "getDaysArray start finish =
     (if utcOf start = None \<or> utcOf finish = None then []
      else daysLoop [] (utcOf start) (utcOf finish))"
  by (simp add: getDaysArray_def utcOf_def Let_def isNaN_def getTime_def)

lemma TimeClip_None [simp]: "TimeClip None = None"
  by (simp add: TimeClip_def)

lemma MakeDay_None:
  "MakeDay None m d = None" "MakeDay y None d = None" "MakeDay y m None = None"
  by (simp_all add: MakeDay_def split: option.splits)

lemma Date_UTC_None:
  "Date_UTC None m d = None" "Date_UTC y None d = None" "Date_UTC y m None = None"
  by (simp_all add: Date_UTC_def MakeDay_None MakeDate_def Let_def split: option.splits)

lemma utcOf_missing_field: "length (js_split CHR ''-'' str) < 3 \<Longrightarrow> utcOf str = None"
  by (simp add: utcOf_def Let_def num_at_def Date_UTC_None new_Date_def)

lemma utcOf_bad_field:
  assumes "i < 3" "i < length (js_split CHR ''-'' str)" "Number (js_split CHR ''-'' str ! i) = None"
  shows "utcOf str = None"
proof -
  from assms(1) have "i = 0 \<or> i = 1 \<or> i = 2" by arith
  then show ?thesis
    using assms(2,3)
    by (auto simp add: utcOf_def Let_def num_at_def Date_UTC_None new_Date_def js_sub_def)
qed

lemma daysLoop_same: "daysLoop [] (Some t) (Some t) = [TimeClip (Some t)]"
proof -
  have "\<not> js_le (getTime (TimeClip (Some (t + msPerDay)))) (getTime (Some t))"
    by (simp add: js_le_def getTime_def TimeClip_def msPerDay_def)
  then show ?thesis
    by (simp add: daysLoop_step js_le_def getTime_def daysLoop_stop)
qed

lemma getDaysArray_same: "length (getDaysArray s s) \<le> 1"
  by (cases "utcOf s") (simp_all add: getDaysArray_utcOf daysLoop_same)


section \<open>\<open>addDays\<close>\<close>

text \<open>
  Claim C7, as the code has it: for every day \<open>k\<close> from 0100-01-01 to the last day a \<open>Date\<close>
  can hold (100000000 days after 1970-01-01) and every integer \<open>n\<close> for which the day
  \<open>k + n\<close> lies in that range too, \<open>addDays\<close> of the text of \<open>k\<close> and \<open>n\<close> returns the text of
  \<open>k + n\<close>, and \<open>addDays\<close> of that text and \<open>- n\<close> returns the text of \<open>k\<close> again.
\<close>

theorem addDays_round_trip:
  assumes "DayFromYear 100 \<le> k" "k \<le> 100000000"
    and "DayFromYear 100 \<le> k + n" "k + n \<le> 100000000"
  shows "addDays (isoDate k) n = Inr (isoDate (k + n))
         \<and> addDays (isoDate (k + n)) (- n) = Inr (isoDate k)"
proof -
  have a: "\<bar>k\<bar> \<le> 100000000" "\<bar>k + n\<bar> \<le> 100000000"
    using assms by (simp_all add: DayFromYear_def abs_if)
  show ?thesis
    using a by (simp add: addDays_isoDate_gen [OF assms(1,2)] addDays_isoDate_gen [OF assms(3,4)])
qed

theorem addDays_round_trip_witness:
  "DayFromYear 100 \<le> 19785 \<and> (19785::int) \<le> 100000000
   \<and> DayFromYear 100 \<le> 19785 + 30 \<and> (19785::int) + 30 \<le> 100000000
   \<and> isoDate 19785 = ''2024-03-03'' \<and> isoDate (19785 + 30) = ''2024-04-02''
   \<and> addDays ''2024-03-03'' 30 = Inr ''2024-04-02''
   \<and> addDays ''2024-04-02'' (- 30) = Inr ''2024-03-03''"
proof -
  have h: "DayFromYear 100 \<le> 19785" "(19785::int) \<le> 100000000"
    "DayFromYear 100 \<le> 19785 + 30" "(19785::int) + 30 \<le> 100000000"
    by (simp_all add: DayFromYear_def)
  have e: "isoDate 19785 = ''2024-03-03''" "isoDate (19785 + 30) = ''2024-04-02''"
    by code_simp+
  show ?thesis
    using h addDays_round_trip [OF h] unfolding e by simp
qed

text \<open>
  The claim as the specification words it, for every calendar date and every integer,
  fails: \<open>Date.UTC\<close> reads a year from 0 to 99 as 1900 to 1999, so one day back from
  0100-01-01 and one day forward again ends at 2000-01-01; and a number of days that
  leaves the range of \<open>Date\<close> makes \<open>toISOString\<close> throw.
\<close>

theorem addDays_round_trip_counterexample:
  "addDays ''0100-01-01'' (- 1) = Inr ''0099-12-31''
   \<and> addDays ''0099-12-31'' (- (- 1)) = Inr ''2000-01-01''
   \<and> addDays ''2024-01-01'' 100000000 = Inl RangeError"
  by code_simp


section \<open>Enumerating the days of a trip\<close>



text \<open>
  Claim C8, as the code has it: \<open>getDaysArray\<close> has no throwing path, and it returns the
  empty array whenever one of its strings gives an invalid date or the start is later
  than the end. A string gives an invalid date, among other cases, when it has fewer
  than three fields between hyphens or when one of its first three fields is not a
  number.
\<close>

theorem getDaysArray_lenient:
  "(utcOf start = None \<or> utcOf finish = None \<or> \<not> js_le (utcOf start) (utcOf finish)
      \<longrightarrow> getDaysArray start finish = [])
   \<and> (length (js_split CHR ''-'' str) < 3 \<longrightarrow> utcOf str = None)
   \<and> (i < 3 \<and> i < length (js_split CHR ''-'' str) \<and> Number (js_split CHR ''-'' str ! i) = None
      \<longrightarrow> utcOf str = None)"
  using utcOf_missing_field [of str] utcOf_bad_field [of i str]
  by (auto simp add: getDaysArray_utcOf daysLoop_stop getTime_def)

theorem getDaysArray_lenient_witness:
  "\<not> js_le (utcOf ''2024-03-05'') (utcOf ''2024-03-01'')
   \<and> getDaysArray ''2024-03-05'' ''2024-03-01'' = []
   \<and> length (js_split CHR ''-'' ''2024-03'') < 3
   \<and> utcOf ''2024-03'' = None
   \<and> (1::nat) < 3 \<and> 1 < length (js_split CHR ''-'' ''2024-xx-01'')
   \<and> Number (js_split CHR ''-'' ''2024-xx-01'' ! 1) = None
   \<and> utcOf ''2024-xx-01'' = None"
proof -
  have a: "\<not> js_le (utcOf ''2024-03-05'') (utcOf ''2024-03-01'')" by code_simp
  have b: "length (js_split CHR ''-'' ''2024-03'') < 3" by simp
  have c: "(1::nat) < 3" "1 < length (js_split CHR ''-'' ''2024-xx-01'')"
    "Number (js_split CHR ''-'' ''2024-xx-01'' ! 1) = None"
    by code_simp+
  show ?thesis
    using a b c getDaysArray_lenient [of "''2024-03-05''" "''2024-03-01''" "''2024-03''" 0]
      getDaysArray_lenient [of "''2024-03-05''" "''2024-03-01''" "''2024-xx-01''" 1]
    by simp
qed

text \<open>
  The claim as the specification words it fails twice: \<open>addDays\<close> has no check of its
  input and ends in the \<open>RangeError\<close> of \<open>toISOString\<close> on a malformed string; and a date
  that is not a date of the calendar, as 2024-02-30, is carried over by \<open>Date.UTC\<close> to
  2024-03-01, so \<open>getDaysArray\<close> returns a day for it, not the empty array.
\<close>

theorem date_utilities_lenient_counterexample:
  "addDays ''abc'' 1 = Inl RangeError
   \<and> getDaysArray ''2024-02-30'' ''2024-03-01'' = [Some (19783 * msPerDay)]"
  by code_simp


section \<open>The guard of the itinerary view\<close>

text \<open>
  Claim C5: on a trip whose start date equals its end date, \<open>handleRemoveClick\<close> shows the
  alert and returns; \<open>handleRemoveDay\<close> is not called, no request is issued to the store,
  and the store is as it was.
\<close>

theorem handleRemoveClick_only_day:
  assumes "startDate t = endDate t"
  shows "handleRemoveClick t isUpdating deletingDate confirmed dateStr index w
           = w\<lparr>alerts := alerts w @ [AtLeastOneDay]\<rparr>
         \<and> db (handleRemoveClick t isUpdating deletingDate confirmed dateStr index w) = db w
         \<and> reqlog (handleRemoveClick t isUpdating deletingDate confirmed dateStr index w) = reqlog w"
  using getDaysArray_same [of "endDate t"] by (simp add: handleRemoveClick_def assms)

theorem handleRemoveClick_only_day_witness:
  "startDate (example_trip\<lparr>endDate := ''2024-03-01''\<rparr>)
     = endDate (example_trip\<lparr>endDate := ''2024-03-01''\<rparr>)
   \<and> db (handleRemoveClick (example_trip\<lparr>endDate := ''2024-03-01''\<rparr>) False None True
             ''2024-03-01'' 0 example_world) = db example_world
   \<and> reqlog (handleRemoveClick (example_trip\<lparr>endDate := ''2024-03-01''\<rparr>) False None True
             ''2024-03-01'' 0 example_world) = []
   \<and> alerts (handleRemoveClick (example_trip\<lparr>endDate := ''2024-03-01''\<rparr>) False None True
             ''2024-03-01'' 0 example_world) = [AtLeastOneDay]"
proof -
  have h: "startDate (example_trip\<lparr>endDate := ''2024-03-01''\<rparr>)
             = endDate (example_trip\<lparr>endDate := ''2024-03-01''\<rparr>)"
    by (simp add: example_trip_def)
  show ?thesis
    using h handleRemoveClick_only_day [OF h, of False None True "''2024-03-01''" 0 example_world]
    by (simp add: example_world_def)
qed


section \<open>What the store does with the requests of the day-shift logic\<close>

lemma monthStart_simps:
  "monthStart 0 l = 0" "monthStart 1 l = 31" "monthStart 2 l = 59 + l" "monthStart 3 l = 90 + l"
  "monthStart 4 l = 120 + l" "monthStart 5 l = 151 + l" "monthStart 6 l = 181 + l"
  "monthStart 7 l = 212 + l" "monthStart 8 l = 243 + l" "monthStart 9 l = 273 + l"
  "monthStart 10 l = 304 + l" "monthStart 11 l = 334 + l"
  by (simp_all add: monthStart_def)

lemma daysInMonth_simps:
  "daysInMonth y 1 = 31" "daysInMonth y 2 = (if DaysInYear y = 366 then 29 else 28)"
  "daysInMonth y 3 = 31" "daysInMonth y 4 = 30" "daysInMonth y 5 = 31" "daysInMonth y 6 = 30"
  "daysInMonth y 7 = 31" "daysInMonth y 8 = 31" "daysInMonth y 9 = 30" "daysInMonth y 10 = 31"
  "daysInMonth y 11 = 30" "daysInMonth y 12 = 31"
  by (simp_all add: daysInMonth_def)

lemma MonthFromTime_cases:
  "MonthFromTime t = 0 \<and> DayWithinYear t < 31
   \<or> MonthFromTime t = 1 \<and> DayWithinYear t < 59 + InLeapYear t
   \<or> MonthFromTime t = 2 \<and> DayWithinYear t < 90 + InLeapYear t
   \<or> MonthFromTime t = 3 \<and> DayWithinYear t < 120 + InLeapYear t
   \<or> MonthFromTime t = 4 \<and> DayWithinYear t < 151 + InLeapYear t
   \<or> MonthFromTime t = 5 \<and> DayWithinYear t < 181 + InLeapYear t
   \<or> MonthFromTime t = 6 \<and> DayWithinYear t < 212 + InLeapYear t
   \<or> MonthFromTime t = 7 \<and> DayWithinYear t < 243 + InLeapYear t
   \<or> MonthFromTime t = 8 \<and> DayWithinYear t < 273 + InLeapYear t
   \<or> MonthFromTime t = 9 \<and> DayWithinYear t < 304 + InLeapYear t
   \<or> MonthFromTime t = 10 \<and> DayWithinYear t < 334 + InLeapYear t
   \<or> MonthFromTime t = 11 \<and> DayWithinYear t < 365 + InLeapYear t"
proof -
  have b: "DayWithinYear t < 365 + InLeapYear t"
    using DayWithinYear_bounds(2) [of t] InLeapYear_cases [of t] by auto
  then show ?thesis
    by (simp add: MonthFromTime_def Let_def)
qed

lemma DayWithinYear_month_end:
  "DayWithinYear t < monthStart (MonthFromTime t) (InLeapYear t)
      + daysInMonth (YearFromTime t) (MonthFromTime t + 1)"
proof -
  have l: "(if DaysInYear (YearFromTime t) = 366 then 29 else 28) = 28 + InLeapYear t"
    by (simp add: InLeapYear_def)
  show ?thesis
    using MonthFromTime_cases [of t]
    by (elim disjE conjE) (simp_all add: monthStart_simps daysInMonth_simps l)
qed

lemma DateFromTime_le_daysInMonth:
  "DateFromTime t \<le> daysInMonth (YearFromTime t) (MonthFromTime t + 1)"
  using DayWithinYear_month_end [of t] month_date [of t] by linarith

lemma iso_shape:
  assumes "length a = 4" "length b = 2" "length c = 2"
  defines "s \<equiv> a @ CHR ''-'' # b @ CHR ''-'' # c"
  shows "length s = 10" "s ! 4 = CHR ''-''" "s ! 7 = CHR ''-''"
    "take 4 s = a" "take 2 (drop 5 s) = b" "drop 8 s = c"
  using assms by (simp_all add: nth_append)

lemma isoDate_fields:
  assumes "valid_day k"
  shows "isoDate k = pad_digits 4 (YearFromTime (k * msPerDay)) @ CHR ''-''
            # pad_digits 2 (MonthFromTime (k * msPerDay) + 1) @ CHR ''-''
            # pad_digits 2 (DateFromTime (k * msPerDay))"
    and "100 \<le> YearFromTime (k * msPerDay)" and "YearFromTime (k * msPerDay) \<le> 9999"
proof -
  have "DayFromYear 100 \<le> Day (k * msPerDay)"
    using assms by (simp add: Day_mult valid_day_def)
  then show y1: "100 \<le> YearFromTime (k * msPerDay)" by (rule YearFromTime_ge)
  show y2: "YearFromTime (k * msPerDay) \<le> 9999"
    using assms by (intro year_of_day_le) (simp add: valid_day_def)
  show "isoDate k = pad_digits 4 (YearFromTime (k * msPerDay)) @ CHR ''-''
            # pad_digits 2 (MonthFromTime (k * msPerDay) + 1) @ CHR ''-''
            # pad_digits 2 (DateFromTime (k * msPerDay))"
    using y1 y2 by (simp add: isoDate_def isoDatePart_def isoYear_def del: pad_digits.simps)
qed

lemma pg_date_isoDate:
  assumes "valid_day k"
  shows "pg_date (isoDate k) = Some k"
proof -
  let ?t = "k * msPerDay"
  let ?a = "pad_digits 4 (YearFromTime ?t)"
  let ?b = "pad_digits 2 (MonthFromTime ?t + 1)"
  let ?c = "pad_digits 2 (DateFromTime ?t)"
  note f = isoDate_fields [OF assms]
  have sh: "length (?a @ CHR ''-'' # ?b @ CHR ''-'' # ?c) = 10"
    "(?a @ CHR ''-'' # ?b @ CHR ''-'' # ?c) ! 4 = CHR ''-''"
    "(?a @ CHR ''-'' # ?b @ CHR ''-'' # ?c) ! 7 = CHR ''-''"
    "take 4 (?a @ CHR ''-'' # ?b @ CHR ''-'' # ?c) = ?a"
    "take 2 (drop 5 (?a @ CHR ''-'' # ?b @ CHR ''-'' # ?c)) = ?b"
    "drop 8 (?a @ CHR ''-'' # ?b @ CHR ''-'' # ?c) = ?c"
    by (rule iso_shape; simp del: pad_digits.simps)+
  have va: "digits_value ?a = YearFromTime ?t"
    using f(2,3) by (intro digits_value_pad) simp_all
  have vb: "digits_value ?b = MonthFromTime ?t + 1"
    using MonthFromTime_range [of ?t] by (intro digits_value_pad) simp_all
  have vc: "digits_value ?c = DateFromTime ?t"
    using DateFromTime_range [of ?t] by (intro digits_value_pad) simp_all
  have ok: "1 \<le> YearFromTime ?t" "1 \<le> MonthFromTime ?t + 1" "MonthFromTime ?t + 1 \<le> 12"
    "1 \<le> DateFromTime ?t" "DateFromTime ?t \<le> daysInMonth (YearFromTime ?t) (MonthFromTime ?t + 1)"
    using f(2) MonthFromTime_range [of ?t] DateFromTime_range [of ?t]
      DateFromTime_le_daysInMonth [of ?t]
    by simp_all
  have m: "MakeDay (Some (YearFromTime ?t)) (Some (MonthFromTime ?t + 1 - 1))
             (Some (DateFromTime ?t)) = Some k"
    by (simp add: MakeDay_fields Day_mult)
  have "pg_date (?a @ CHR ''-'' # ?b @ CHR ''-'' # ?c) = Some k"
    unfolding pg_date_def sh Let_def va vb vc m
    using ok by (simp add: pad_digits_all_digit del: pad_digits.simps)
  then show ?thesis by (simp only: f(1))
qed




text \<open>
  The day \<open>MakeDay\<close> computes has the year, the month and the date it was computed from;
  and the texts the store accepts are the texts \<open>isoDate\<close> writes: a string is the text
  of a valid day exactly when the store reads it as a day of the year 100 or later.
\<close>

lemma month_cases:
  assumes "0 \<le> mn" "mn \<le> 11"
  shows "mn = 0 \<or> mn = 1 \<or> mn = 2 \<or> mn = 3 \<or> mn = 4 \<or> mn = 5 \<or> mn = 6 \<or> mn = 7 \<or> mn = 8
         \<or> mn = 9 \<or> mn = 10 \<or> mn = (11::int)"
  using assms by arith

lemma fields_of_MakeDay:
  assumes m: "0 \<le> mn" "mn \<le> 11" and d: "1 \<le> d" "d \<le> daysInMonth ym (mn + 1)"
  defines "l \<equiv> (if DaysInYear ym = 366 then 1 else 0)"
  defines "t \<equiv> (DayFromYear ym + monthStart mn l + d - 1) * msPerDay"
  shows "YearFromTime t = ym" "MonthFromTime t = mn" "DateFromTime t = d"
proof -
  have l: "(if DaysInYear ym = 366 then 29 else 28) = 28 + l" "l = 0 \<or> l = 1"
    "DaysInYear ym = 365 + l"
    by (simp_all add: l_def DaysInYear_def)
  have day: "Day t = DayFromYear ym + monthStart mn l + d - 1"
    unfolding t_def by (rule Day_mult)
  have r: "0 \<le> monthStart mn l + d - 1 \<and> monthStart mn l + d - 1 < 365 + l"
    using month_cases [OF m] d l(2)
    by (elim disjE) (simp_all add: monthStart_simps daysInMonth_simps l(1))
  show y: "YearFromTime t = ym"
    using r by (intro YearFromTime_unique) (simp_all add: day DayFromYear_step l(3))
  have dw: "DayWithinYear t = monthStart mn l + d - 1"
    by (simp add: DayWithinYear_def y day)
  have il: "InLeapYear t = l"
    by (simp add: InLeapYear_def y l_def)
  show mo: "MonthFromTime t = mn"
    using month_cases [OF m] d l(2)
    unfolding MonthFromTime_def Let_def dw il
    by (elim disjE) (simp_all add: monthStart_simps daysInMonth_simps l(1))
  show "DateFromTime t = d"
    using month_cases [OF m]
    unfolding DateFromTime_def Let_def dw il mo
    by (elim disjE) (simp_all add: monthStart_simps)
qed

lemma MakeDay_finds:
  fixes ym mn :: int
  assumes "0 \<le> mn" "mn \<le> 11"
  defines "t \<equiv> (DayFromYear ym + monthStart mn (if DaysInYear ym = 366 then 1 else 0)) * msPerDay"
  shows "YearFromTime t = ym \<and> MonthFromTime t = mn \<and> DateFromTime t = 1"
proof -
  have "1 \<le> daysInMonth ym (mn + 1)"
    using month_cases [OF assms(1,2)]
    by (elim disjE) (simp_all add: daysInMonth_simps)
  from fields_of_MakeDay [where d = 1, OF assms(1,2) _ this] show ?thesis
    by (simp add: t_def)
qed

lemma digit_val_char:
  assumes "is_digit c"
  shows "digit_char (digit_val c) = c" "0 \<le> digit_val c" "digit_val c < 10"
  using assms by (auto simp add: is_digit_def digit_char_def digit_val_def)

lemma digits_value_snoc: "digits_value (z @ [c]) = 10 * digits_value z + digit_val c"
  by (simp add: digits_value_def)

lemma digits_value_range:
  "list_all is_digit z \<Longrightarrow> 0 \<le> digits_value z \<and> digits_value z < 10 ^ length z"
proof (induction z rule: rev_induct)
  case Nil
  show ?case by (simp add: digits_value_def)
next
  case (snoc c z)
  then have ih: "0 \<le> digits_value z" "digits_value z < 10 ^ length z" and c: "is_digit c"
    by simp_all
  from ih(2) have "digits_value z + 1 \<le> 10 ^ length z" by simp
  then have "10 * (digits_value z + 1) \<le> 10 * 10 ^ length z" by simp
  then show ?case
    using ih(1) digit_val_char(2,3) [OF c] by (simp add: digits_value_snoc)
qed

lemma pad_digits_value: "list_all is_digit z \<Longrightarrow> pad_digits (length z) (digits_value z) = z"
proof (induction z rule: rev_induct)
  case Nil
  show ?case by simp
next
  case (snoc c z)
  then have ih: "pad_digits (length z) (digits_value z) = z" and c: "is_digit c"
    by simp_all
  note dv = digit_val_char [OF c]
  have e: "10 * digits_value z + digit_val c = 10 * digits_value z + digit_val c" ..
  have q: "(10 * digits_value z + digit_val c) div 10 = digits_value z"
    using int_div_pos_eq [OF e dv(2,3)] .
  have r: "(10 * digits_value z + digit_val c) mod 10 = digit_val c"
    using int_mod_pos_eq [OF e dv(2,3)] .
  have r': "digit_val c mod 10 = digit_val c" "digit_val c div 10 = 0"
    using dv(2,3) by simp_all
  show ?case
    by (simp add: digits_value_snoc q r r' ih dv(1))
qed

lemma iso_decompose:
  assumes "length s = 10"
  shows "s = take 4 s @ s ! 4 # take 2 (drop 5 s) @ s ! 7 # drop 8 s"
proof -
  have a: "drop 4 s = s ! 4 # drop 5 s"
    using Cons_nth_drop_Suc [of 4 s] assms by simp
  have b: "drop 7 s = s ! 7 # drop 8 s"
    using Cons_nth_drop_Suc [of 7 s] assms by simp
  have c: "drop 5 s = take 2 (drop 5 s) @ drop 7 s"
    using append_take_drop_id [of 2 "drop 5 s"] by simp
  have "s = take 4 s @ drop 4 s" by simp
  also have "\<dots> = take 4 s @ s ! 4 # take 2 (drop 5 s) @ s ! 7 # drop 8 s"
    by (simp only: a b c [symmetric]) (simp add: b [symmetric] c [symmetric])
  finally show ?thesis .
qed

lemma pg_date_Some:
  assumes "pg_date s = Some k"
  shows "isoDate k = s" and "k < DayFromYear 10000"
proof -
  define a b c where "a = take 4 s" and "b = take 2 (drop 5 s)" and "c = drop 8 s"
  define y m d where "y = digits_value a" and "m = digits_value b" and "d = digits_value c"
  from assms have sh: "length s = 10" "s ! 4 = CHR ''-''" "s ! 7 = CHR ''-''"
    and dg: "list_all is_digit a" "list_all is_digit b" "list_all is_digit c"
    by (simp_all add: pg_date_def a_def b_def c_def split: if_splits)
  from assms sh dg have ok: "1 \<le> y" "1 \<le> m" "m \<le> 12" "1 \<le> d" "d \<le> daysInMonth y m"
    and k: "MakeDay (Some y) (Some (m - 1)) (Some d) = Some k"
    by (simp_all add: pg_date_def a_def [symmetric] b_def [symmetric] c_def [symmetric] Let_def
          y_def [symmetric] m_def [symmetric] d_def [symmetric] split: if_splits)
  have len: "length a = 4" "length b = 2" "length c = 2"
    using sh(1) by (simp_all add: a_def b_def c_def)
  have s: "s = a @ CHR ''-'' # b @ CHR ''-'' # c"
    using iso_decompose [OF sh(1)] by (simp add: sh(2,3) a_def b_def c_def)
  have y9: "y \<le> 9999"
    using digits_value_range [OF dg(1)] by (simp add: y_def len)
  have pa: "pad_digits 4 y = a" and pb: "pad_digits 2 m = b" and pc: "pad_digits 2 d = c"
    using pad_digits_value [OF dg(1)] pad_digits_value [OF dg(2)] pad_digits_value [OF dg(3)]
    by (simp_all add: len y_def m_def d_def del: pad_digits.simps)
  have mm: "0 \<le> m - 1" "m - 1 \<le> 11" "d \<le> daysInMonth y (m - 1 + 1)"
    using ok by simp_all
  have md: "(m - 1) div 12 = 0" "(m - 1) mod 12 = m - 1"
    using mm(1,2) by simp_all
  have kk: "k = DayFromYear y + monthStart (m - 1) (if DaysInYear y = 366 then 1 else 0) + d - 1"
    using k by (simp add: MakeDay_def md)
  note f = fields_of_MakeDay [OF mm(1,2) ok(4) mm(3), folded kk]
  show "isoDate k = s"
    using ok(1) y9
    by (simp add: isoDate_def isoDatePart_def isoYear_def f pa pb pc s [symmetric]
          del: pad_digits.simps)
  have "Day (k * msPerDay) < DayFromYear (y + 1)"
    using YearFromTime_upper [of "k * msPerDay"] by (simp add: f(1))
  moreover have "DayFromYear (y + 1) \<le> DayFromYear 10000"
    using y9 by (intro DayFromYear_mono) simp
  ultimately show "k < DayFromYear 10000"
    by (simp add: Day_mult)
qed

lemma valid_iso_text:
  "(\<exists>k. valid_day k \<and> s = isoDate k)
     \<longleftrightarrow> (case pg_date s of None \<Rightarrow> False | Some k \<Rightarrow> DayFromYear 100 \<le> k)"
proof
  assume "\<exists>k. valid_day k \<and> s = isoDate k"
  then obtain k where k: "valid_day k" "s = isoDate k" by blast
  then show "case pg_date s of None \<Rightarrow> False | Some k \<Rightarrow> DayFromYear 100 \<le> k"
    by (simp add: pg_date_isoDate valid_day_def)
next
  assume a: "case pg_date s of None \<Rightarrow> False | Some k \<Rightarrow> DayFromYear 100 \<le> k"
  then obtain k where k: "pg_date s = Some k" "DayFromYear 100 \<le> k"
    by (cases "pg_date s") simp_all
  from pg_date_Some [OF k(1)] k(2) have "valid_day k \<and> s = isoDate k"
    by (simp add: valid_day_def)
  then show "\<exists>k. valid_day k \<and> s = isoDate k" by blast
qed








section \<open>The three cases of \<open>handleRemoveDay\<close>\<close>








subsection \<open>The trip of the examples\<close>















lemma example_interior_log:
  "reqlog (handleRemoveDay (Some example_trip) ''2024-03-03'' example_world)
     = [Issued (DeleteActivitiesOn ''t1'' ''2024-03-03''),
        Settled (DeleteActivitiesOn ''t1'' ''2024-03-03''),
        Issued (SelectActivitiesAfter ''t1'' ''2024-03-03''),
        Settled (SelectActivitiesAfter ''t1'' ''2024-03-03''),
        Issued (UpdateActivityDate ''a3'' ''2024-03-03''),
        Issued (UpdateActivityDate ''a4'' ''2024-03-04''),
        Settled (UpdateActivityDate ''a4'' ''2024-03-04''),
        Settled (UpdateActivityDate ''a3'' ''2024-03-03''),
        Issued (UpdateTripDates ''t1'' ''2024-03-01'' ''2024-03-04''),
        Settled (UpdateTripDates ''t1'' ''2024-03-01'' ''2024-03-04'')]"
  by code_simp


lemma shiftRequests_shape:
  "shiftRequests rows = Inr rs \<Longrightarrow> \<forall>r \<in> set rs. \<exists>i nd. r = UpdateActivityDate i nd"
proof (induction rows arbitrary: rs)
  case Nil
  then show ?case by simp
next
  case (Cons a rows)
  then show ?case by (auto split: sum.splits)
qed

lemma shiftRequests_Nil: "shiftRequests [] = Inr rs \<Longrightarrow> rs = []"
  by simp

lemma reqlog_update_trip:
  "reqlog (handleUpdateTripDates tid s e w)
     = reqlog w @ [Issued (UpdateTripDates tid s e), Settled (UpdateTripDates tid s e)]"
  by (simp add: handleUpdateTripDates_def await_db_def split: sum.splits prod.splits)

lemma await_db_log:
  "await_db r w = (res, w') \<Longrightarrow> reqlog w' = reqlog w @ [Issued r, Settled r] \<and> latency w' = latency w"
  by (auto simp add: await_db_def split: sum.splits prod.splits)


section \<open>Removing a day\<close>











text \<open>
  Claim C9: in every run of the interior case of \<open>handleRemoveDay\<close>, the requests logged are
  the deletion and the selection (\<open>pre\<close>), then the updates of the activity dates, all
  issued and then all settled (in the order the network settles them, a rearrangement
  of the requests issued), and only then, last, the update of the dates of the trip. A
  run that fails on the way ends before the update of the trip; none issues it earlier.
\<close>

theorem trip_update_after_shift_updates:
  assumes "dateToRemove \<noteq> startDate t" "dateToRemove \<noteq> endDate t"
  shows "\<exists>pre rs post.
           reqlog (handleRemoveDay (Some t) dateToRemove w)
             = reqlog w @ pre @ map Issued rs @ map Settled (sort_key (latency w) rs) @ post
         \<and> set pre \<subseteq> {Issued (DeleteActivitiesOn (t_id t) dateToRemove),
                       Settled (DeleteActivitiesOn (t_id t) dateToRemove),
                       Issued (SelectActivitiesAfter (t_id t) dateToRemove),
                       Settled (SelectActivitiesAfter (t_id t) dateToRemove)}
         \<and> (\<forall>r \<in> set rs. \<exists>i nd. r = UpdateActivityDate i nd)
         \<and> (post = [] \<or>
              (\<exists>s e. post = [Issued (UpdateTripDates (t_id t) s e),
                             Settled (UpdateTripDates (t_id t) s e)]))"
proof -
  let ?del = "DeleteActivitiesOn (t_id t) dateToRemove"
  let ?sel = "SelectActivitiesAfter (t_id t) dateToRemove"
  let ?P = "\<lambda>pre rs post.
           reqlog (handleRemoveDay (Some t) dateToRemove w)
             = reqlog w @ pre @ map Issued rs @ map Settled (sort_key (latency w) rs) @ post
         \<and> set pre \<subseteq> {Issued ?del, Settled ?del, Issued ?sel, Settled ?sel}
         \<and> (\<forall>r \<in> set rs. \<exists>i nd. r = UpdateActivityDate i nd)
         \<and> (post = [] \<or>
              (\<exists>s e. post = [Issued (UpdateTripDates (t_id t) s e),
                             Settled (UpdateTripDates (t_id t) s e)]))"
  obtain r1 w1 where d: "await_db ?del w = (r1, w1)" by (cases "await_db ?del w")
  note l1 = await_db_log [OF d]
  show ?thesis
  proof (cases r1)
    case (Inl e)
    then have "?P [Issued ?del, Settled ?del] [] []"
      by (simp add: handleRemoveDay_def Let_def d caught_def l1)
    then show ?thesis by blast
  next
    case (Inr rows1)
    obtain r2 w2 where s: "await_db ?sel w1 = (r2, w2)" by (cases "await_db ?sel w1")
    note l2 = await_db_log [OF s]
    show ?thesis
    proof (cases r2)
      case (Inl e)
      then have "?P [Issued ?del, Settled ?del, Issued ?sel, Settled ?sel] [] []"
        using assms by (simp add: handleRemoveDay_def Let_def d Inr s caught_def l1 l2)
      then show ?thesis by blast
    next
      case acts: (Inr actsToShift)
      show ?thesis
      proof (cases "shiftRequests actsToShift")
        case (Inl e)
        then have "?P [Issued ?del, Settled ?del, Issued ?sel, Settled ?sel] [] []"
          using assms by (simp add: handleRemoveDay_def Let_def d Inr s acts caught_def l1 l2)
        then show ?thesis by blast
      next
        case rs: (Inr rs)
        define w3 where "w3 = (if actsToShift \<noteq> [] then await_all rs w2 else w2)"
        have e: "actsToShift = [] \<Longrightarrow> rs = []" using rs by auto
        have l3: "reqlog w3 = reqlog w @ [Issued ?del, Settled ?del, Issued ?sel, Settled ?sel]
                     @ map Issued rs @ map Settled (sort_key (latency w) rs)"
          using e by (cases "actsToShift = []") (simp_all add: w3_def await_all_def l1 l2)
        note sh = shiftRequests_shape [OF rs]
        show ?thesis
        proof (cases "addDays (endDate t) (- 1)")
          case (Inl e)
          then have "handleRemoveDay (Some t) dateToRemove w = caught w3"
            using assms by (simp add: handleRemoveDay_def Let_def d Inr s acts rs w3_def)
          then have "?P [Issued ?del, Settled ?del, Issued ?sel, Settled ?sel] rs []"
            using sh by (simp add: caught_def l3)
          then show ?thesis by blast
        next
          case ne: (Inr newEndDate)
          then have "handleRemoveDay (Some t) dateToRemove w
                       = handleUpdateTripDates (t_id t) (startDate t) newEndDate w3"
            using assms by (simp add: handleRemoveDay_def Let_def d Inr s acts rs w3_def)
          then have "?P [Issued ?del, Settled ?del, Issued ?sel, Settled ?sel] rs
                        [Issued (UpdateTripDates (t_id t) (startDate t) newEndDate),
                         Settled (UpdateTripDates (t_id t) (startDate t) newEndDate)]"
            using sh by (simp add: reqlog_update_trip l3)
          then show ?thesis by blast
        qed
      qed
    qed
  qed
qed

theorem trip_update_after_shift_updates_witness:
  "''2024-03-03'' \<noteq> startDate example_trip \<and> ''2024-03-03'' \<noteq> endDate example_trip
   \<and> (\<exists>pre rs post.
           reqlog (handleRemoveDay (Some example_trip) ''2024-03-03'' example_world)
             = reqlog example_world @ pre @ map Issued rs
                 @ map Settled (sort_key (latency example_world) rs) @ post
         \<and> set pre \<subseteq> {Issued (DeleteActivitiesOn (t_id example_trip) ''2024-03-03''),
                       Settled (DeleteActivitiesOn (t_id example_trip) ''2024-03-03''),
                       Issued (SelectActivitiesAfter (t_id example_trip) ''2024-03-03''),
                       Settled (SelectActivitiesAfter (t_id example_trip) ''2024-03-03'')}
         \<and> (\<forall>r \<in> set rs. \<exists>i nd. r = UpdateActivityDate i nd)
         \<and> (post = [] \<or>
              (\<exists>s e. post = [Issued (UpdateTripDates (t_id example_trip) s e),
                             Settled (UpdateTripDates (t_id example_trip) s e)])))
   \<and> reqlog (handleRemoveDay (Some example_trip) ''2024-03-03'' example_world)
     = [Issued (DeleteActivitiesOn ''t1'' ''2024-03-03''),
        Settled (DeleteActivitiesOn ''t1'' ''2024-03-03''),
        Issued (SelectActivitiesAfter ''t1'' ''2024-03-03''),
        Settled (SelectActivitiesAfter ''t1'' ''2024-03-03''),
        Issued (UpdateActivityDate ''a3'' ''2024-03-03''),
        Issued (UpdateActivityDate ''a4'' ''2024-03-04''),
        Settled (UpdateActivityDate ''a4'' ''2024-03-04''),
        Settled (UpdateActivityDate ''a3'' ''2024-03-03''),
        Issued (UpdateTripDates ''t1'' ''2024-03-01'' ''2024-03-04''),
        Settled (UpdateTripDates ''t1'' ''2024-03-01'' ''2024-03-04'')]"
proof -
  have h: "''2024-03-03'' \<noteq> startDate example_trip" "''2024-03-03'' \<noteq> endDate example_trip"
    by (simp_all add: example_trip_def)
  from trip_update_after_shift_updates [OF h, of example_world] h example_interior_log
  show ?thesis by (intro conjI)
qed

section \<open>Extending a trip\<close>



end
